theory Spec2Isabelle
  imports Main "HOL-Library.Char_ord"
begin

section \<open>JavaScript strings\<close>

text \<open>
  The command parser of \<^verbatim>\<open>src/app/api/integrations/slack/send-message/route.ts\<close> is pure
  string processing. A string is modelled as a list of 8-bit characters, read as the code
  units U+0000 to U+00FF (Latin-1); \<open>toLowerCase\<close>, \<open>trim\<close> and the regular
  expression classes are written for this range.
\<close>

definition isWhiteSpace :: "char \<Rightarrow> bool" where
  \<comment> \<open>WhiteSpace and LineTerminator of ECMAScript below U+0100: what \<open>\s\<close> and \<open>trim\<close> strip.\<close>
  "isWhiteSpace c \<longleftrightarrow>
     c = CHR 0x09 \<or> c = CHR 0x0A \<or> c = CHR 0x0B \<or> c = CHR 0x0C \<or> c = CHR 0x0D \<or>
     c = CHR 0x20 \<or> c = CHR 0xA0"

definition isLineTerminator :: "char \<Rightarrow> bool" where
  "isLineTerminator c \<longleftrightarrow> c = CHR 0x0A \<or> c = CHR 0x0D"

definition isUpper :: "char \<Rightarrow> bool" where
  \<comment> \<open>The characters below U+0100 that \<open>toLowerCase\<close> changes: A-Z, and U+00C0 to U+00DE
      without the multiplication sign U+00D7.\<close>
  "isUpper c \<longleftrightarrow>
     (let n = (of_char c :: nat) in
        (65 \<le> n \<and> n \<le> 90) \<or> (192 \<le> n \<and> n \<le> 214) \<or> (216 \<le> n \<and> n \<le> 222))"

definition toLowerCase_char :: "char \<Rightarrow> char" where
  "toLowerCase_char c = (if isUpper c then char_of ((of_char c :: nat) + 32) else c)"

definition toLowerCase :: "string \<Rightarrow> string" where
  \<comment> \<open>\<open>s.toLowerCase()\<close>\<close>
  "toLowerCase s = map toLowerCase_char s"

definition trim :: "string \<Rightarrow> string" where
  \<comment> \<open>\<open>s.trim()\<close>\<close>
  "trim s = rev (dropWhile isWhiteSpace (rev (dropWhile isWhiteSpace s)))"

definition startsWith :: "string \<Rightarrow> string \<Rightarrow> bool" where
  \<comment> \<open>\<open>s.startsWith(p)\<close>\<close>
  "startsWith s p \<longleftrightarrow> take (length p) s = p"

fun includes_js :: "string \<Rightarrow> string \<Rightarrow> bool" where
  \<comment> \<open>\<open>s.includes(p)\<close>\<close>
  "includes_js [] p = (p = [])"
| "includes_js (c # cs) p = (startsWith (c # cs) p \<or> includes_js cs p)"

fun split :: "string \<Rightarrow> char \<Rightarrow> string list" where
  \<comment> \<open>\<open>s.split(sep)\<close> for a separator of one character\<close>
  "split [] sep = [[]]"
| "split (c # cs) sep =
     (if c = sep then [] # split cs sep
      else (case split cs sep of p # ps \<Rightarrow> (c # p) # ps | [] \<Rightarrow> [[c]]))"

fun nth_opt :: "'a list \<Rightarrow> nat \<Rightarrow> 'a option" where
  \<comment> \<open>\<open>xs[i]\<close>: \<open>undefined\<close> (here \<open>None\<close>) out of range\<close>
  "nth_opt [] i = None"
| "nth_opt (x # xs) 0 = Some x"
| "nth_opt (x # xs) (Suc i) = nth_opt xs i"

section \<open>Regular expressions\<close>

text \<open>
  The fragment of ECMAScript regular expressions the parser uses, with the backtracking
  semantics of the language definition: a matcher takes a continuation and a match state,
  and a later alternative is tried only when the continuation has failed on every earlier
  one. In this file quantifiers \<open>+\<close> and \<open>+?\<close> are only ever applied to a character class.
\<close>

datatype cclass =
    Space       \<comment> \<open>\<open>\s\<close>\<close>
  | Quote       \<comment> \<open>\<open>['"`]\<close>\<close>
  | NotQuote    \<comment> \<open>\<open>[^'"`]\<close>\<close>
  | Dot         \<comment> \<open>\<open>.\<close>\<close>

definition isQuote :: "char \<Rightarrow> bool" where
  "isQuote c \<longleftrightarrow> c = CHR 0x27 \<or> c = CHR 0x22 \<or> c = CHR 0x60"

fun inClass :: "cclass \<Rightarrow> char \<Rightarrow> bool" where
  "inClass Space c = isWhiteSpace c"
| "inClass Quote c = isQuote c"
| "inClass NotQuote c = (\<not> isQuote c)"
| "inClass Dot c = (\<not> isLineTerminator c)"

datatype regex =
    Str string            \<comment> \<open>a sequence of pattern characters\<close>
  | One cclass            \<comment> \<open>one character of a class\<close>
  | Plus cclass           \<comment> \<open>\<open>c+\<close>, greedy\<close>
  | PlusLazy cclass       \<comment> \<open>\<open>c+?\<close>\<close>
  | Seq regex regex
  | Alt regex regex       \<comment> \<open>\<open>a|b\<close>\<close>
  | Opt regex             \<comment> \<open>\<open>(?:a)?\<close>, greedy\<close>
  | Group nat regex       \<comment> \<open>the capturing group of that number\<close>
  | Bol                   \<comment> \<open>\<open>^\<close>\<close>
  | Eol                   \<comment> \<open>\<open>$\<close>, without the multiline flag\<close>

datatype MatchState =
  MatchState (endIndex: nat) (rest: string) (captures: "nat \<rightharpoonup> string")

type_synonym continuation = "MatchState \<Rightarrow> MatchState option"

definition canonicalize :: "bool \<Rightarrow> char \<Rightarrow> char" where
  \<comment> \<open>with the flag \<open>i\<close> characters are compared up to case\<close>
  "canonicalize ignoreCase c = (if ignoreCase then toLowerCase_char c else c)"

function starGreedy :: "cclass \<Rightarrow> continuation \<Rightarrow> MatchState \<Rightarrow> MatchState option" where
  "starGreedy cl c (MatchState i [] caps) = c (MatchState i [] caps)"
| "starGreedy cl c (MatchState i (ch # cs) caps) =
     (if inClass cl ch then
        (case starGreedy cl c (MatchState (Suc i) cs caps) of
           Some z \<Rightarrow> Some z
         | None \<Rightarrow> c (MatchState i (ch # cs) caps))
      else c (MatchState i (ch # cs) caps))"
  by pat_completeness auto
termination
  by (relation "measure (\<lambda>(cl, c, x). length (rest x))") auto

function starLazy :: "cclass \<Rightarrow> continuation \<Rightarrow> MatchState \<Rightarrow> MatchState option" where
  "starLazy cl c (MatchState i [] caps) = c (MatchState i [] caps)"
| "starLazy cl c (MatchState i (ch # cs) caps) =
     (case c (MatchState i (ch # cs) caps) of
        Some z \<Rightarrow> Some z
      | None \<Rightarrow> if inClass cl ch then starLazy cl c (MatchState (Suc i) cs caps) else None)"
  by pat_completeness auto
termination
  by (relation "measure (\<lambda>(cl, c, x). length (rest x))") auto

fun oneOf :: "cclass \<Rightarrow> continuation \<Rightarrow> MatchState \<Rightarrow> MatchState option" where
  "oneOf cl c (MatchState i [] caps) = None"
| "oneOf cl c (MatchState i (ch # cs) caps) =
     (if inClass cl ch then c (MatchState (Suc i) cs caps) else None)"

fun chars :: "bool \<Rightarrow> string \<Rightarrow> continuation \<Rightarrow> MatchState \<Rightarrow> MatchState option" where
  "chars ic [] c x = c x"
| "chars ic (p # ps) c (MatchState i [] caps) = None"
| "chars ic (p # ps) c (MatchState i (ch # cs) caps) =
     (if canonicalize ic ch = canonicalize ic p then chars ic ps c (MatchState (Suc i) cs caps)
      else None)"

fun matcher :: "bool \<Rightarrow> regex \<Rightarrow> continuation \<Rightarrow> MatchState \<Rightarrow> MatchState option" where
  "matcher ic (Str s) c x = chars ic s c x"
| "matcher ic (One cl) c x = oneOf cl c x"
| "matcher ic (Plus cl) c x = oneOf cl (starGreedy cl c) x"
| "matcher ic (PlusLazy cl) c x = oneOf cl (starLazy cl c) x"
| "matcher ic (Seq a b) c x = matcher ic a (matcher ic b c) x"
| "matcher ic (Alt a b) c x =
     (case matcher ic a c x of Some z \<Rightarrow> Some z | None \<Rightarrow> matcher ic b c x)"
| "matcher ic (Opt a) c x =
     (case matcher ic a (\<lambda>y. if endIndex y = endIndex x then None else c y) x of
        Some z \<Rightarrow> Some z
      | None \<Rightarrow> c x)"
| "matcher ic (Group n a) c x =
     matcher ic a
       (\<lambda>y. c (MatchState (endIndex y) (rest y)
                 ((captures y)(n \<mapsto> take (endIndex y - endIndex x) (rest x))))) x"
| "matcher ic Bol c x = (if endIndex x = 0 then c x else None)"
| "matcher ic Eol c x = (if rest x = [] then c x else None)"

text \<open>
  \<open>RegExp.prototype.exec\<close> without the flags \<open>g\<close> and \<open>y\<close>: the match is tried at
  every index from the left, the empty suffix included, and the first success is returned
  with the index it starts at.
\<close>

fun searchFrom :: "bool \<Rightarrow> regex \<Rightarrow> nat \<Rightarrow> string \<Rightarrow> (nat \<times> MatchState) option" where
  "searchFrom ic r i [] =
     (case matcher ic r Some (MatchState i [] Map.empty) of
        Some y \<Rightarrow> Some (i, y)
      | None \<Rightarrow> None)"
| "searchFrom ic r i (ch # cs) =
     (case matcher ic r Some (MatchState i (ch # cs) Map.empty) of
        Some y \<Rightarrow> Some (i, y)
      | None \<Rightarrow> searchFrom ic r (Suc i) cs)"

definition match :: "string \<Rightarrow> bool \<Rightarrow> regex \<Rightarrow> MatchState option" where
  \<comment> \<open>\<open>s.match(r)\<close>; the second argument is the flag \<open>i\<close> of \<open>r\<close>\<close>
  "match s ic r = map_option snd (searchFrom ic r 0 s)"

definition replace :: "string \<Rightarrow> regex \<Rightarrow> string \<Rightarrow> string" where
  \<comment> \<open>\<open>s.replace(r, t)\<close> for a regular expression without flags and a replacement
      without \<open>$\<close>: only the first match is replaced\<close>
  "replace s r t =
     (case searchFrom False r 0 s of
        None \<Rightarrow> s
      | Some (i, y) \<Rightarrow> take i s @ t @ rest y)"

fun seqs :: "regex list \<Rightarrow> regex" where
  \<comment> \<open>the concatenation of the listed terms\<close>
  "seqs [] = Str []"
| "seqs [r] = r"
| "seqs (r # rs) = Seq r (seqs rs)"

section \<open>The patterns of \<open>parseAICommand\<close>\<close>

definition pattern1 :: regex where
  \<comment> \<open>\<^verbatim>\<open>/(?:hey\s+)?(?:send|message)\s+['"`]([^'"`]+)['"`]\s+to\s+(.+)/i\<close>\<close>
  "pattern1 =
     seqs [Opt (seqs [Str ''hey'', Plus Space]),
           Alt (Str ''send'') (Str ''message''), Plus Space,
           One Quote, Group 1 (Plus NotQuote), One Quote, Plus Space,
           Str ''to'', Plus Space, Group 2 (Plus Dot)]"

definition pattern2 :: regex where
  \<comment> \<open>\<^verbatim>\<open>/(?:tell|notify)\s+(.+?)\s+(?:that\s+)?['"`]?([^'"`]+)['"`]?$/i\<close>\<close>
  "pattern2 =
     seqs [Alt (Str ''tell'') (Str ''notify''), Plus Space,
           Group 1 (PlusLazy Dot), Plus Space,
           Opt (seqs [Str ''that'', Plus Space]),
           Opt (One Quote), Group 2 (Plus NotQuote), Opt (One Quote), Eol]"

definition channelPartPattern :: regex where
  \<comment> \<open>\<^verbatim>\<open>/(?:in\s+)?(?:the\s+)?(.+?)(?:\s+channel)?$/\<close>\<close>
  "channelPartPattern =
     seqs [Opt (seqs [Str ''in'', Plus Space]), Opt (seqs [Str ''the'', Plus Space]),
           Group 1 (PlusLazy Dot), Opt (seqs [Plus Space, Str ''channel'']), Eol]"

definition articlePattern :: regex where
  \<comment> \<open>\<^verbatim>\<open>/^(the\s+|a\s+|an\s+)/\<close>\<close>
  "articlePattern =
     seqs [Bol, Group 1 (Alt (seqs [Str ''the'', Plus Space])
                        (Alt (seqs [Str ''a'', Plus Space]) (seqs [Str ''an'', Plus Space])))]"

definition trailingChannelPattern :: regex where
  \<comment> \<open>\<^verbatim>\<open>/\s+channel$/\<close>\<close>
  "trailingChannelPattern = seqs [Plus Space, Str ''channel'', Eol]"

definition trailingRoomPattern :: regex where
  \<comment> \<open>\<^verbatim>\<open>/\s+room$/\<close>\<close>
  "trailingRoomPattern = seqs [Plus Space, Str ''room'', Eol]"

definition spacesPattern :: regex where
  \<comment> \<open>\<^verbatim>\<open>/\s+/\<close>, without the flag \<open>g\<close>\<close>
  "spacesPattern = Plus Space"

section \<open>The channel mappings\<close>

text \<open>
  \<open>channelMappings\<close> is an object literal and \<open>channelMappings[cleanChannel]\<close> is a
  property read: a key that is not an own property of the literal is looked up in
  \<open>Object.prototype\<close>. The values that can come back are therefore strings, \<open>undefined\<close>,
  the prototype object (through the accessor \<open>__proto__\<close>) and the built-in methods.
\<close>

datatype jsval =
    JString string
  | JUndefined
  | JObjectPrototype
  | JNativeFunction string   \<comment> \<open>a built-in function, with its name\<close>

definition channelMappings :: "(string \<times> string) list" where
  "channelMappings =
     [(''development'', ''dev''),
      (''developer'', ''dev''),
      (''developers'', ''dev''),
      (''programming'', ''dev''),
      (''coding'', ''dev''),
      (''general'', ''general''),
      (''random'', ''random''),
      (''team'', ''team''),
      (''announcements'', ''announcements''),
      (''announce'', ''announcements''),
      (''marketing'', ''marketing''),
      (''sales'', ''sales''),
      (''support'', ''support''),
      (''help'', ''support''),
      (''design'', ''design''),
      (''product'', ''product''),
      (''engineering'', ''engineering''),
      (''tech'', ''tech''),
      (''technology'', ''tech'')]"

definition objectPrototypeMethods :: "string list" where
  "objectPrototypeMethods =
     [''hasOwnProperty'', ''isPrototypeOf'', ''propertyIsEnumerable'', ''toLocaleString'',
      ''toString'', ''valueOf'', ''__defineGetter__'', ''__defineSetter__'',
      ''__lookupGetter__'', ''__lookupSetter__'']"

definition objectPrototype_get :: "string \<Rightarrow> jsval" where
  "objectPrototype_get key =
     (if key = ''__proto__'' then JObjectPrototype
      else if key = ''constructor'' then JNativeFunction ''Object''
      else if key \<in> set objectPrototypeMethods then JNativeFunction key
      else JUndefined)"

definition channelMappings_get :: "string \<Rightarrow> jsval" where
  \<comment> \<open>\<open>channelMappings[key]\<close>\<close>
  "channelMappings_get key =
     (case map_of channelMappings key of
        Some v \<Rightarrow> JString v
      | None \<Rightarrow> objectPrototype_get key)"

fun truthy :: "jsval \<Rightarrow> bool" where
  "truthy (JString s) = (s \<noteq> [])"
| "truthy JUndefined = False"
| "truthy JObjectPrototype = True"
| "truthy (JNativeFunction f) = True"

fun toString :: "jsval \<Rightarrow> string" where
  \<comment> \<open>the conversion a template literal applies; the text of a built-in function is the
      one Node.js prints\<close>
  "toString (JString s) = s"
| "toString JUndefined = ''undefined''"
| "toString JObjectPrototype = ''[object Object]''"
| "toString (JNativeFunction f) = ''function '' @ f @ ''() { [native code] }''"

section \<open>\<open>parseAICommand\<close>\<close>

record ParsedCommand =
  message :: string
  channel :: string

datatype jsError = TypeError

definition capture :: "MatchState \<Rightarrow> nat \<Rightarrow> jsError + string" where
  \<comment> \<open>\<open>m[n]\<close> used as a string: calling \<open>trim\<close> on a group that did not take part in
      the match (\<open>undefined\<close>) throws\<close>
  "capture m n = (case captures m n of None \<Rightarrow> Inl TypeError | Some g \<Rightarrow> Inr g)"

definition cleanChannelName :: "string \<Rightarrow> string" where
  \<comment> \<open>the chain of \<open>replace\<close> calls that computes \<open>cleanChannel\<close>\<close>
  "cleanChannelName ch =
     trim (replace (replace (replace (replace (toLowerCase ch)
             articlePattern [])
             trailingChannelPattern [])
             trailingRoomPattern [])
             spacesPattern ''-'')"

definition hasSigil :: "string \<Rightarrow> bool" where
  \<comment> \<open>the negation of the guard of both prefixing blocks\<close>
  "hasSigil ch \<longleftrightarrow>
     startsWith ch ''#'' \<or> startsWith ch ''@'' \<or> startsWith ch ''C'' \<or> startsWith ch ''D''"

definition resolveChannel :: "string \<Rightarrow> string" where
  \<comment> \<open>the block "Smart channel name extraction from natural language" of pattern 1,
      as a function of \<open>channel\<close>\<close>
  "resolveChannel ch =
     (if \<not> hasSigil ch then
        (let cleanChannel = cleanChannelName ch;
             mapped = channelMappings_get cleanChannel;
             cleanChannel' = (if truthy mapped then mapped else JString cleanChannel)
         in ''#'' @ toString cleanChannel')
      else ch)"

definition splitChannel :: "string \<Rightarrow> jsError + string" where
  \<comment> \<open>the block \<open>if (channel.includes('/'))\<close> of pattern 1, as a function of \<open>channel\<close>\<close>
  "splitChannel ch =
     (if includes_js ch ''/'' then
        (let parts = split ch CHR ''/'' in
           (case nth_opt parts 1 of
              Some channelPart \<Rightarrow>
                if includes_js channelPart ''channel'' then
                  (case match channelPart False channelPartPattern of
                     Some channelMatch \<Rightarrow> map_sum id trim (capture channelMatch 1)
                   | None \<Rightarrow> Inr ch)
                else Inr (''@'' @ toString (case_option JUndefined JString (nth_opt parts 0)))
            | None \<Rightarrow> Inr (''@'' @ toString (case_option JUndefined JString (nth_opt parts 0)))))
      else Inr ch)"

definition fromMatch1 :: "MatchState \<Rightarrow> jsError + ParsedCommand option" where
  \<comment> \<open>the body of \<open>if (match1)\<close>\<close>
  "fromMatch1 match1 =
     (case capture match1 1 of
        Inl e \<Rightarrow> Inl e
      | Inr g1 \<Rightarrow>
          (case capture match1 2 of
             Inl e \<Rightarrow> Inl e
           | Inr g2 \<Rightarrow>
               (case splitChannel (trim g2) of
                  Inl e \<Rightarrow> Inl e
                | Inr ch \<Rightarrow> Inr (Some \<lparr>message = trim g1, channel = resolveChannel ch\<rparr>))))"

definition fromMatch2 :: "MatchState \<Rightarrow> jsError + ParsedCommand option" where
  \<comment> \<open>the body of \<open>if (match2)\<close>\<close>
  "fromMatch2 match2 =
     (case capture match2 1 of
        Inl e \<Rightarrow> Inl e
      | Inr g1 \<Rightarrow>
          (case capture match2 2 of
             Inl e \<Rightarrow> Inl e
           | Inr g2 \<Rightarrow>
               (let ch = trim g1
                in Inr (Some \<lparr>message = trim g2,
                              channel = (if \<not> hasSigil ch then ''#'' @ ch else ch)\<rparr>))))"

definition command_of :: "string \<Rightarrow> string" where
  \<comment> \<open>\<open>const command = input.toLowerCase().trim()\<close>\<close>
  "command_of input = trim (toLowerCase input)"

definition parseAICommand :: "string \<Rightarrow> jsError + ParsedCommand option" where
  \<comment> \<open>\<open>Inr None\<close> is the result \<open>null\<close>, \<open>Inl\<close> an exception\<close>
  "parseAICommand input =
     (let command = command_of input in
        (case match command True pattern1 of
           Some match1 \<Rightarrow> fromMatch1 match1
         | None \<Rightarrow>
             (case match command True pattern2 of
                Some match2 \<Rightarrow> fromMatch2 match2
              | None \<Rightarrow> Inr None)))"

section \<open>The fallback of the request handler\<close>

text \<open>
  \<open>POST\<close> rejects a request without \<open>nangoConnectionId\<close> or without \<open>command\<close>, then
  tries the MCP tool, and when that fails parses the command itself. The model is this last
  path, for a request that has a connection identifier, as a function of \<open>command\<close> and
  up to the call of \<open>slackService.sendMessage\<close>, which is outside the model. The outcome is
  a response with status 400 or 500, or the request handed to \<open>sendMessage\<close>.
\<close>

datatype fallbackOutcome =
    MissingRequiredField                   \<comment> \<open>status 400, "command is required"\<close>
  | InvalidRequest "string list"           \<comment> \<open>status 400, with \<open>details.examples\<close>\<close>
  | SendMessage string string              \<comment> \<open>\<open>sendMessage({channel, text})\<close>\<close>
  | InternalServerError                    \<comment> \<open>status 500, from the \<open>catch\<close>\<close>

definition examples :: "string list" where
  "examples =
     [''send '' @ [CHR 0x27] @ ''Hello team!'' @ [CHR 0x27] @ '' to #general'',
      ''message '' @ [CHR 0x27] @ ''Meeting in 5 minutes'' @ [CHR 0x27] @ '' to @john'',
      ''send '' @ [CHR 0x27] @ ''Good morning'' @ [CHR 0x27] @ '' to the development channel'']"

definition postFallback :: "string \<Rightarrow> fallbackOutcome" where
  "postFallback command =
     (if command = [] then MissingRequiredField
      else
        (case parseAICommand command of
           Inl e \<Rightarrow> InternalServerError
         | Inr None \<Rightarrow> InvalidRequest examples
         | Inr (Some parsed) \<Rightarrow> SendMessage (channel parsed) (message parsed)))"

section \<open>The identifiers of the specification\<close>

definition spec_opaqueId :: "string \<Rightarrow> bool" where
  \<comment> \<open>the pattern \<^verbatim>\<open>^[A-Z][A-Z0-9]{8,}$\<close> of the specification; \<open>parseAICommand\<close>
      has no such test\<close>
  "spec_opaqueId s \<longleftrightarrow>
     (case s of
        [] \<Rightarrow> False
      | c # cs \<Rightarrow>
          CHR ''A'' \<le> c \<and> c \<le> CHR ''Z'' \<and> 8 \<le> length cs \<and>
          (\<forall>d\<in>set cs. (CHR ''A'' \<le> d \<and> d \<le> CHR ''Z'') \<or> (CHR ''0'' \<le> d \<and> d \<le> CHR ''9'')))"

section \<open>Notions used in the proofs\<close>

text \<open>
  The groups that have taken part whenever a pattern has matched, and two relations between
  the match state a matcher starts in and a state it hands to its continuation: the input
  only shrinks, no capture is lost, and a new capture is made of characters of the input.
\<close>

fun definedGroups :: "regex \<Rightarrow> nat set" where
  "definedGroups (Group n a) = insert n (definedGroups a)"
| "definedGroups (Seq a b) = definedGroups a \<union> definedGroups b"
| "definedGroups (Alt a b) = definedGroups a \<inter> definedGroups b"
| "definedGroups r = {}"

definition advances :: "MatchState \<Rightarrow> MatchState \<Rightarrow> bool" where
  "advances x y \<longleftrightarrow> (\<exists>w. rest x = w @ rest y) \<and> captures y = captures x"

definition extends :: "MatchState \<Rightarrow> MatchState \<Rightarrow> bool" where
  "extends x y \<longleftrightarrow>
     (\<exists>w. rest x = w @ rest y) \<and>
     (\<forall>n. captures x n \<noteq> None \<longrightarrow> captures y n \<noteq> None) \<and>
     (\<forall>n g. captures y n = Some g \<longrightarrow> captures x n = Some g \<or> set g \<subseteq> set (rest x))"

section \<open>Characters\<close>

lemma isUpper_bounds:
  assumes "isUpper c"
  shows "65 \<le> (of_char c :: nat)" and "(of_char c :: nat) \<le> 222"
  using assms unfolding isUpper_def Let_def by linarith+

lemma toLowerCase_char_code:
  "(of_char (toLowerCase_char c) :: nat) = (if isUpper c then of_char c + 32 else of_char c)"
proof (cases "isUpper c")
  case True
  from isUpper_bounds[OF True] have "(of_char c :: nat) + 32 < 256" by linarith
  then have "((of_char c :: nat) + 32) mod 256 = of_char c + 32" by simp
  with True show ?thesis by (simp add: toLowerCase_char_def)
next
  case False
  then show ?thesis by (simp add: toLowerCase_char_def)
qed

lemma toLowerCase_char_not_upper: "\<not> isUpper (toLowerCase_char c)"
proof (cases "isUpper c")
  case True
  then have "(of_char (toLowerCase_char c) :: nat) = of_char c + 32"
    by (simp add: toLowerCase_char_code)
  with True show ?thesis unfolding isUpper_def Let_def by linarith
next
  case False
  then show ?thesis by (simp add: toLowerCase_char_def)
qed

lemma isUpper_C: "isUpper (CHR ''C'')" and isUpper_D: "isUpper (CHR ''D'')"
  by (simp_all add: isUpper_def)

lemma isQuote_toLowerCase_char: "isQuote (toLowerCase_char c) = isQuote c"
proof (cases "isUpper c")
  case True
  then have n: "(of_char (toLowerCase_char c) :: nat) = of_char c + 32"
    by (simp add: toLowerCase_char_code)
  from isUpper_bounds[OF True] n have "97 \<le> (of_char (toLowerCase_char c) :: nat)" by linarith
  then have 1: "\<not> isQuote (toLowerCase_char c)"
    by (auto simp: isQuote_def)
  from True have "\<not> isQuote c"
    by (auto simp: isQuote_def isUpper_def)
  with 1 show ?thesis by simp
next
  case False
  then show ?thesis by (simp add: toLowerCase_char_def)
qed


section \<open>What a successful match guarantees\<close>

lemma advances_refl: "advances x x"
  by (simp add: advances_def)

lemma advances_extends: "advances x y \<Longrightarrow> extends x y"
  by (auto simp: advances_def extends_def)

lemma extends_refl: "extends x x"
  by (simp add: advances_extends advances_refl)

lemma extends_trans:
  assumes "extends x y" and "extends y z"
  shows "extends x z"
proof -
  from assms obtain w v where w: "rest x = w @ rest y" and v: "rest y = v @ rest z"
    by (auto simp: extends_def)
  have sub: "set (rest y) \<subseteq> set (rest x)" using w by auto
  have "rest x = (w @ v) @ rest z" using w v by simp
  then have 1: "\<exists>u. rest x = u @ rest z" by blast
  have 2: "\<forall>n. captures x n \<noteq> None \<longrightarrow> captures z n \<noteq> None"
    using assms by (simp add: extends_def)
  have 3: "\<forall>n g. captures z n = Some g \<longrightarrow> captures x n = Some g \<or> set g \<subseteq> set (rest x)"
  proof (intro allI impI)
    fix n g assume "captures z n = Some g"
    with assms(2) have "captures y n = Some g \<or> set g \<subseteq> set (rest y)"
      by (simp add: extends_def)
    then show "captures x n = Some g \<or> set g \<subseteq> set (rest x)"
    proof
      assume "captures y n = Some g"
      with assms(1) show ?thesis by (simp add: extends_def)
    next
      assume "set g \<subseteq> set (rest y)"
      with sub show ?thesis by blast
    qed
  qed
  from 1 2 3 show ?thesis unfolding extends_def by blast
qed

lemma starGreedy_advances:
  "starGreedy cl c x = Some z \<Longrightarrow> \<exists>y. c y = Some z \<and> advances x y"
proof (induction cl c x rule: starGreedy.induct)
  case (1 cl c i caps)
  then show ?case by (auto intro: advances_refl)
next
  case (2 cl c i ch cs caps)
  show ?case
  proof (cases "inClass cl ch \<and> starGreedy cl c (MatchState (Suc i) cs caps) = Some z")
    case True
    with 2 obtain y where "c y = Some z" "advances (MatchState (Suc i) cs caps) y" by blast
    then have "c y = Some z \<and> advances (MatchState i (ch # cs) caps) y"
      by (auto simp: advances_def)
    then show ?thesis by blast
  next
    case False
    with 2(2) have "c (MatchState i (ch # cs) caps) = Some z"
      by (auto split: if_splits option.splits)
    then show ?thesis by (auto intro: advances_refl)
  qed
qed

lemma starLazy_advances:
  "starLazy cl c x = Some z \<Longrightarrow> \<exists>y. c y = Some z \<and> advances x y"
proof (induction cl c x rule: starLazy.induct)
  case (1 cl c i caps)
  then show ?case by (auto intro: advances_refl)
next
  case (2 cl c i ch cs caps)
  show ?case
  proof (cases "c (MatchState i (ch # cs) caps)")
    case (Some z')
    with 2(2) show ?thesis by (auto intro: advances_refl)
  next
    case None
    with 2(2) have ic: "inClass cl ch" and "starLazy cl c (MatchState (Suc i) cs caps) = Some z"
      by (auto split: if_splits)
    with 2(1) None obtain y where "c y = Some z" "advances (MatchState (Suc i) cs caps) y" by blast
    then have "c y = Some z \<and> advances (MatchState i (ch # cs) caps) y"
      by (auto simp: advances_def)
    then show ?thesis by blast
  qed
qed

lemma oneOf_advances:
  "oneOf cl c x = Some z \<Longrightarrow> \<exists>y. c y = Some z \<and> advances x y \<and> rest x \<noteq> rest y"
proof (cases x)
  case (MatchState i s caps)
  assume a: "oneOf cl c x = Some z"
  show ?thesis
  proof (cases s)
    case Nil
    with a MatchState show ?thesis by simp
  next
    case (Cons ch cs)
    with a MatchState have "c (MatchState (Suc i) cs caps) = Some z"
      by (simp split: if_splits)
    moreover have "advances x (MatchState (Suc i) cs caps)"
      using MatchState Cons by (auto simp: advances_def)
    ultimately show ?thesis using MatchState Cons by force
  qed
qed

lemma advances_trans: "advances x y \<Longrightarrow> advances y z \<Longrightarrow> advances x z"
  by (auto simp: advances_def)

lemma chars_advances:
  "chars ic ps c x = Some z \<Longrightarrow> \<exists>y. c y = Some z \<and> advances x y"
proof (induction ic ps c x rule: chars.induct)
  case (1 ic c x)
  then show ?case by (auto intro: advances_refl)
next
  case (2 ic p ps c i caps)
  then show ?case by simp
next
  case (3 ic p ps c i ch cs caps)
  from 3(2) have eq: "canonicalize ic ch = canonicalize ic p"
    and "chars ic ps c (MatchState (Suc i) cs caps) = Some z"
    by (auto split: if_splits)
  with 3(1) obtain y where "c y = Some z" "advances (MatchState (Suc i) cs caps) y" by blast
  then have "c y = Some z \<and> advances (MatchState i (ch # cs) caps) y"
    by (auto simp: advances_def)
  then show ?case by blast
qed

lemma matcher_sound:
  "matcher ic r c x = Some z \<Longrightarrow>
     \<exists>y. c y = Some z \<and> extends x y \<and> (\<forall>n\<in>definedGroups r. captures y n \<noteq> None)"
proof (induction r arbitrary: c x)
  case (Str s)
  then show ?case using chars_advances advances_extends by fastforce
next
  case (One cl)
  then show ?case using oneOf_advances advances_extends by fastforce
next
  case (Plus cl)
  then obtain y where y: "starGreedy cl c y = Some z" "advances x y"
    using oneOf_advances by fastforce
  then obtain y' where "c y' = Some z" "advances y y'"
    using starGreedy_advances by blast
  with y show ?case using advances_trans advances_extends by fastforce
next
  case (PlusLazy cl)
  then obtain y where y: "starLazy cl c y = Some z" "advances x y"
    using oneOf_advances by fastforce
  then obtain y' where "c y' = Some z" "advances y y'"
    using starLazy_advances by blast
  with y show ?case using advances_trans advances_extends by fastforce
next
  case (Seq a b)
  from Seq.prems have "matcher ic a (matcher ic b c) x = Some z" by simp
  from Seq.IH(1)[OF this] obtain y where y: "matcher ic b c y = Some z" "extends x y"
    "\<forall>n\<in>definedGroups a. captures y n \<noteq> None" by blast
  from Seq.IH(2)[OF y(1)] obtain y' where y': "c y' = Some z" "extends y y'"
    "\<forall>n\<in>definedGroups b. captures y' n \<noteq> None" by blast
  have "\<forall>n\<in>definedGroups a. captures y' n \<noteq> None"
    using y(3) y'(2) by (simp add: extends_def)
  with y y' show ?case using extends_trans by fastforce
next
  case (Alt a b)
  show ?case
  proof (cases "matcher ic a c x")
    case None
    with Alt.prems have "matcher ic b c x = Some z" by simp
    from Alt.IH(2)[OF this] show ?thesis by auto
  next
    case (Some z')
    with Alt.prems have "matcher ic a c x = Some z" by simp
    from Alt.IH(1)[OF this] show ?thesis by auto
  qed
next
  case (Opt a)
  let ?d = "\<lambda>y. if endIndex y = endIndex x then None else c y"
  show ?case
  proof (cases "matcher ic a ?d x")
    case None
    with Opt.prems have "c x = Some z" by simp
    then show ?thesis using extends_refl by auto
  next
    case (Some z')
    with Opt.prems have "matcher ic a ?d x = Some z" by simp
    from Opt.IH[OF this] obtain y where "?d y = Some z" "extends x y" by blast
    then have "c y = Some z \<and> extends x y" by (auto split: if_splits)
    then show ?thesis by auto
  qed
next
  case (Group n a)
  let ?k = "\<lambda>y. MatchState (endIndex y) (rest y)
                 ((captures y)(n \<mapsto> take (endIndex y - endIndex x) (rest x)))"
  from Group.prems have "matcher ic a (\<lambda>y. c (?k y)) x = Some z" by simp
  from Group.IH[OF this] obtain y where y: "c (?k y) = Some z" "extends x y"
    "\<forall>m\<in>definedGroups a. captures y m \<noteq> None" by blast
  have "set (take (endIndex y - endIndex x) (rest x)) \<subseteq> set (rest x)"
    by (rule set_take_subset)
  with y(2) have "extends x (?k y)"
    unfolding extends_def by auto
  moreover have "\<forall>m\<in>definedGroups (Group n a). captures (?k y) m \<noteq> None"
    using y(3) by auto
  ultimately show ?case using y(1) by blast
next
  case Bol
  then show ?case using extends_refl by (auto split: if_splits)
next
  case Eol
  then show ?case using extends_refl by (auto split: if_splits)
qed

lemma searchFrom_sound:
  "searchFrom ic r i s = Some (j, y) \<Longrightarrow>
     (\<forall>n\<in>definedGroups r. captures y n \<noteq> None) \<and>
     (\<forall>n g. captures y n = Some g \<longrightarrow> set g \<subseteq> set s)"
proof (induction ic r i s rule: searchFrom.induct)
  case (1 ic r i)
  then have "matcher ic r Some (MatchState i [] Map.empty) = Some y"
    by (auto split: option.splits)
  from matcher_sound[OF this] show ?case by (auto simp: extends_def)
next
  case (2 ic r i ch cs)
  show ?case
  proof (cases "matcher ic r Some (MatchState i (ch # cs) Map.empty)")
    case None
    with 2 show ?thesis by auto
  next
    case (Some y')
    with 2(2) have "matcher ic r Some (MatchState i (ch # cs) Map.empty) = Some y" by simp
    from matcher_sound[OF this] show ?thesis by (auto simp: extends_def)
  qed
qed

lemma match_sound:
  assumes "match s ic r = Some y"
  shows "\<forall>n\<in>definedGroups r. captures y n \<noteq> None"
    and "\<forall>n g. captures y n = Some g \<longrightarrow> set g \<subseteq> set s"
proof -
  from assms obtain j where "searchFrom ic r 0 s = Some (j, y)"
    by (auto simp: match_def)
  from searchFrom_sound[OF this]
  show "\<forall>n\<in>definedGroups r. captures y n \<noteq> None"
    and "\<forall>n g. captures y n = Some g \<longrightarrow> set g \<subseteq> set s"
    by blast+
qed

lemma groups_pattern1: "1 \<in> definedGroups pattern1" "2 \<in> definedGroups pattern1"
  by (simp_all add: pattern1_def)

lemma groups_pattern2: "1 \<in> definedGroups pattern2" "2 \<in> definedGroups pattern2"
  by (simp_all add: pattern2_def)

lemma groups_channelPartPattern: "1 \<in> definedGroups channelPartPattern"
  by (simp add: channelPartPattern_def)


section \<open>No exception\<close>

lemma capture_defined:
  assumes "match s ic r = Some m" and "n \<in> definedGroups r"
  shows "\<exists>g. captures m n = Some g \<and> capture m n = Inr g \<and> set g \<subseteq> set s"
proof -
  from match_sound(1)[OF assms(1)] assms(2) obtain g where g: "captures m n = Some g"
    by auto
  with match_sound(2)[OF assms(1)] have "set g \<subseteq> set s" by blast
  with g show ?thesis by (simp add: capture_def)
qed

lemma splitChannel_no_throw: "splitChannel ch \<noteq> Inl e"
proof (cases "includes_js ch ''/''")
  case False
  then show ?thesis by (simp add: splitChannel_def)
next
  case True
  show ?thesis
  proof (cases "nth_opt (split ch CHR ''/'') 1")
    case None
    with True show ?thesis by (simp add: splitChannel_def)
  next
    case (Some channelPart)
    show ?thesis
    proof (cases "match channelPart False channelPartPattern")
      case None
      with True Some show ?thesis by (simp add: splitChannel_def)
    next
      case (Some channelMatch)
      from capture_defined[OF this groups_channelPartPattern]
      obtain g where "capture channelMatch 1 = Inr g" by blast
      with True \<open>nth_opt (split ch CHR ''/'') 1 = Some channelPart\<close> Some
      show ?thesis by (simp add: splitChannel_def)
    qed
  qed
qed

lemma fromMatch1_no_throw:
  assumes "match s ic pattern1 = Some m"
  shows "fromMatch1 m \<noteq> Inl e"
proof -
  from capture_defined[OF assms groups_pattern1(1)] obtain g1 where g1: "capture m 1 = Inr g1"
    by blast
  from capture_defined[OF assms groups_pattern1(2)] obtain g2 where g2: "capture m 2 = Inr g2"
    by blast
  show ?thesis
    using g1 g2 splitChannel_no_throw[of "trim g2"]
    by (cases "splitChannel (trim g2)") (auto simp: fromMatch1_def)
qed

lemma fromMatch2_no_throw:
  assumes "match s ic pattern2 = Some m"
  shows "fromMatch2 m \<noteq> Inl e"
proof -
  from capture_defined[OF assms groups_pattern2(1)] obtain g1 where g1: "capture m 1 = Inr g1"
    by blast
  from capture_defined[OF assms groups_pattern2(2)] obtain g2 where g2: "capture m 2 = Inr g2"
    by blast
  show ?thesis
    using g1 g2 by (simp add: fromMatch2_def Let_def)
qed

lemma parseAICommand_no_throw: "parseAICommand input \<noteq> Inl e"
proof (cases "match (command_of input) True pattern1")
  case (Some m1)
  with fromMatch1_no_throw[OF Some] show ?thesis by (simp add: parseAICommand_def)
next
  case None
  show ?thesis
  proof (cases "match (command_of input) True pattern2")
    case (Some m2)
    with None fromMatch2_no_throw[OF Some] show ?thesis by (simp add: parseAICommand_def)
  next
    case None
    with \<open>match (command_of input) True pattern1 = None\<close> show ?thesis
      by (simp add: parseAICommand_def)
  qed
qed

section \<open>The command is in lower case\<close>

lemma set_trim: "set (trim s) \<subseteq> set s"
proof -
  have "set (trim s) = set (dropWhile isWhiteSpace (rev (dropWhile isWhiteSpace s)))"
    by (simp add: trim_def)
  also have "\<dots> \<subseteq> set (rev (dropWhile isWhiteSpace s))"
    by (auto dest: set_dropWhileD)
  also have "\<dots> \<subseteq> set s"
    by (auto dest: set_dropWhileD)
  finally show ?thesis .
qed

lemma set_command_of: "c \<in> set (command_of input) \<Longrightarrow> \<not> isUpper c"
proof -
  assume "c \<in> set (command_of input)"
  then have "c \<in> set (toLowerCase input)"
    using set_trim[of "toLowerCase input"] by (auto simp: command_of_def)
  then show ?thesis
    by (auto simp: toLowerCase_def toLowerCase_char_not_upper)
qed

lemma startsWith_one: "startsWith s [c] \<Longrightarrow> c \<in> set s"
  by (cases s) (auto simp: startsWith_def)

lemma lower_no_letter_sigil:
  assumes "\<forall>c\<in>set s. \<not> isUpper c"
  shows "hasSigil s \<longleftrightarrow> startsWith s ''#'' \<or> startsWith s ''@''"
proof -
  have "\<not> startsWith s ''C''"
    using assms startsWith_one[of s "CHR ''C''"] isUpper_C by auto
  moreover have "\<not> startsWith s ''D''"
    using assms startsWith_one[of s "CHR ''D''"] isUpper_D by auto
  ultimately show ?thesis by (auto simp: hasSigil_def)
qed

lemma hasSigil_nonempty: "hasSigil s \<Longrightarrow> s \<noteq> []"
  by (auto simp: hasSigil_def startsWith_def)

section \<open>Pattern 1 on a quoted message\<close>

lemma starGreedy_all:
  assumes "\<forall>ch\<in>set xs. inClass cl ch"
    and "ys = [] \<or> \<not> inClass cl (hd ys)"
    and "c (MatchState (i + length xs) ys caps) = Some z"
  shows "starGreedy cl c (MatchState i (xs @ ys) caps) = Some z"
  using assms
proof (induction xs arbitrary: i)
  case Nil
  then show ?case by (cases ys) auto
next
  case (Cons x xs)
  from Cons.prems have "c (MatchState (Suc i + length xs) ys caps) = Some z" by simp
  with Cons.IH[of "Suc i"] Cons.prems(1,2)
  have "starGreedy cl c (MatchState (Suc i) (xs @ ys) caps) = Some z" by simp
  with Cons.prems(1) show ?case by simp
qed

lemma trim_id:
  assumes "s \<noteq> []" and "\<not> isWhiteSpace (hd s)" and "\<not> isWhiteSpace (last s)"
  shows "trim s = s"
proof -
  have 1: "dropWhile isWhiteSpace s = s"
    using assms(1,2) by (cases s) auto
  have "rev s \<noteq> []" "\<not> isWhiteSpace (hd (rev s))"
    using assms(1,3) by (simp_all add: hd_rev)
  then have 2: "dropWhile isWhiteSpace (rev s) = rev s"
    by (cases "rev s") auto
  from 1 2 show ?thesis by (simp add: trim_def)
qed

lemma quote_not_upper: "isQuote q \<Longrightarrow> \<not> isUpper q"
  by (auto simp: isQuote_def isUpper_def)

lemma quote_not_space: "isQuote q \<Longrightarrow> \<not> isWhiteSpace q"
  by (auto simp: isQuote_def isWhiteSpace_def)

lemma matcher_Seq: "matcher ic (Seq a b) c = matcher ic a (matcher ic b c)"
  by (rule ext) simp

lemma pattern1_nested:
  "pattern1 =
     Seq (Opt (Seq (Str ''hey'') (Plus Space)))
       (Seq (Alt (Str ''send'') (Str ''message''))
          (Seq (Plus Space)
             (Seq (One Quote)
                (Seq (Group 1 (Plus NotQuote))
                   (Seq (One Quote)
                      (Seq (Plus Space)
                         (Seq (Str ''to'') (Seq (Plus Space) (Group 2 (Plus Dot))))))))))"
  by (simp add: pattern1_def)

lemma after_message_general:
  assumes "isQuote q2"
  shows "matcher True
           (Seq (One Quote)
              (Seq (Plus Space) (Seq (Str ''to'') (Seq (Plus Space) (Group 2 (Plus Dot))))))
           Some (MatchState i (q2 # '' to #general'') caps)
         = Some (MatchState (i + 13) [] (caps(2 \<mapsto> ''#general'')))"
  using assms quote_not_space[OF assms]
  by (simp add: canonicalize_def toLowerCase_char_def isUpper_def
      isWhiteSpace_def isLineTerminator_def)

lemma quoted_message_general:
  assumes "isQuote q2" and "lb \<noteq> []" and "\<forall>c\<in>set lb. \<not> isQuote c"
  shows "matcher True
           (Seq (Group 1 (Plus NotQuote))
              (Seq (One Quote)
                 (Seq (Plus Space) (Seq (Str ''to'') (Seq (Plus Space) (Group 2 (Plus Dot)))))))
           Some (MatchState i (lb @ q2 # '' to #general'') Map.empty)
         = Some (MatchState (i + length lb + 13) [] [1 \<mapsto> lb, 2 \<mapsto> ''#general''])"
proof -
  from assms(2) obtain b bs where lb: "lb = b # bs" by (cases lb) auto
  let ?after = "Seq (One Quote)
                 (Seq (Plus Space) (Seq (Str ''to'') (Seq (Plus Space) (Group 2 (Plus Dot)))))"
  let ?tail = "q2 # '' to #general''"
  let ?x = "MatchState i (lb @ ?tail) Map.empty"
  let ?k = "\<lambda>y. matcher True ?after Some
                  (MatchState (endIndex y) (rest y)
                     ((captures y)(1 \<mapsto> take (endIndex y - endIndex ?x) (rest ?x))))"
  have "?k (MatchState (Suc i + length bs) ?tail Map.empty)
          = Some (MatchState (i + length lb + 13) [] [1 \<mapsto> lb, 2 \<mapsto> ''#general''])"
    using after_message_general[OF assms(1)] by (simp add: lb)
  moreover have "\<forall>ch\<in>set bs. inClass NotQuote ch"
    using assms(3) by (simp add: lb)
  moreover have "\<not> inClass NotQuote (hd ?tail)"
    using assms(1) by simp
  ultimately have star: "starGreedy NotQuote ?k (MatchState (Suc i) (bs @ ?tail) Map.empty)
          = Some (MatchState (i + length lb + 13) [] [1 \<mapsto> lb, 2 \<mapsto> ''#general''])"
    using starGreedy_all[of bs NotQuote ?tail ?k "Suc i" Map.empty] by simp
  have b: "\<not> isQuote b" using assms(3) by (simp add: lb)
  show ?thesis
    using star b by (simp add: lb)
qed

lemma send_prefix_general:
  assumes "isQuote q1"
    and "c (MatchState (Suc (Suc (Suc (Suc (Suc (Suc i)))))) s caps) = Some z"
  shows "matcher True (Opt (Seq (Str ''hey'') (Plus Space)))
           (matcher True (Alt (Str ''send'') (Str ''message''))
              (matcher True (Plus Space) (matcher True (One Quote) c)))
           (MatchState i (''send '' @ q1 # s) caps) = Some z"
  using assms quote_not_space[OF assms(1)]
  by (simp add: canonicalize_def toLowerCase_char_def isUpper_def isWhiteSpace_def)

lemma pattern1_send:
  assumes "isQuote q1" and "isQuote q2" and "lb \<noteq> []" and "\<forall>c\<in>set lb. \<not> isQuote c"
  shows "matcher True pattern1 Some
           (MatchState 0 (''send '' @ q1 # lb @ q2 # '' to #general'') Map.empty)
         = Some (MatchState (length lb + 19) [] [1 \<mapsto> lb, 2 \<mapsto> ''#general''])"
proof -
  let ?rest = "Seq (Group 1 (Plus NotQuote))
              (Seq (One Quote)
                 (Seq (Plus Space) (Seq (Str ''to'') (Seq (Plus Space) (Group 2 (Plus Dot))))))"
  have "matcher True ?rest Some
          (MatchState (Suc (Suc (Suc (Suc (Suc (Suc 0)))))) (lb @ q2 # '' to #general'') Map.empty)
        = Some (MatchState (length lb + 19) [] [1 \<mapsto> lb, 2 \<mapsto> ''#general''])"
    using quoted_message_general[OF assms(2,3,4), of "Suc (Suc (Suc (Suc (Suc (Suc 0)))))"]
    by simp
  from send_prefix_general[OF assms(1), of "matcher True ?rest Some", OF this]
  show ?thesis
    by (simp only: pattern1_nested matcher_Seq)
qed

lemma toLowerCase_append: "toLowerCase (xs @ ys) = toLowerCase xs @ toLowerCase ys"
  by (simp add: toLowerCase_def)

lemma toLowerCase_quote: "isQuote q \<Longrightarrow> toLowerCase_char q = q"
  by (simp add: toLowerCase_char_def quote_not_upper)

section \<open>Resolution\<close>

lemma resolveChannel_nonempty: "resolveChannel phrase \<noteq> []"
  using hasSigil_nonempty[of phrase] by (simp add: resolveChannel_def Let_def)

lemma resolveChannel_unmapped:
  assumes "\<not> hasSigil phrase"
    and "\<not> truthy (channelMappings_get (cleanChannelName phrase))"
  shows "resolveChannel phrase = ''#'' @ cleanChannelName phrase"
  using assms by (simp add: resolveChannel_def Let_def)

section \<open>The claims\<close>

text \<open>
  Claim C1 says that \<open>send 'Hello team!' to #general\<close> is parsed with the message
  \<open>Hello team!\<close> in its original case. The parser lower-cases the whole command before it
  matches, so the message it returns is \<open>hello team!\<close>; the channel is \<open>#general\<close>.
\<close>

theorem C1_message_lowercased:
  "parseAICommand (''send '' @ [CHR 0x27] @ ''Hello team!'' @ [CHR 0x27] @ '' to #general'')
     = Inr (Some \<lparr>message = ''hello team!'', channel = ''#general''\<rparr>)"
  by code_simp

text \<open>
  Claim C2 says that every phrase of the shape \<^verbatim>\<open>^[A-Z][A-Z0-9]{8,}$\<close> is returned
  unchanged. The identifier \<open>G012345678\<close> has that shape and is rewritten into a channel
  name: the guard only looks for a leading \<open>C\<close> or \<open>D\<close>.
\<close>

theorem C2_opaque_id_counterexample:
  "spec_opaqueId ''G012345678'' \<and>
   resolveChannel ''G012345678'' \<noteq> ''G012345678'' \<and>
   resolveChannel ''G012345678'' = ''#g012345678'' \<and>
   parseAICommand (''send '' @ [CHR 0x27] @ ''hi'' @ [CHR 0x27] @ '' to G012345678'')
     = Inr (Some \<lparr>message = ''hi'', channel = ''#g012345678''\<rparr>)"
  by code_simp

text \<open>
  Claim C2, amended. Let pattern 1 match the command, and let \<open>phrase\<close> be the target
  the parser hands to the channel name extraction: the second group, trimmed, after the
  treatment of \<open>/\<close>. If \<open>phrase\<close> starts with \<open>#\<close> or \<open>@\<close>, the parser returns it as
  the channel unchanged: nothing is cleaned, no mapping is applied and no \<open>#\<close> is added.
\<close>

theorem C2_sigil_passthrough:
  assumes "match (command_of input) True pattern1 = Some match1"
    and "captures match1 2 = Some target"
    and "splitChannel (trim target) = Inr phrase"
    and "startsWith phrase ''#'' \<or> startsWith phrase ''@''"
  shows "\<exists>body. captures match1 1 = Some body \<and>
           parseAICommand input = Inr (Some \<lparr>message = trim body, channel = phrase\<rparr>)"
proof -
  from capture_defined[OF assms(1) groups_pattern1(1)]
  obtain body where b: "captures match1 1 = Some body" "capture match1 1 = Inr body"
    by blast
  from assms(2) have t: "capture match1 2 = Inr target"
    by (simp add: capture_def)
  from assms(4) have "resolveChannel phrase = phrase"
    by (auto simp: resolveChannel_def hasSigil_def)
  with assms(1,3) b t show ?thesis
    by (simp add: parseAICommand_def fromMatch1_def)
qed

text \<open>
  The two examples of claim C2 with a sigil, as targets of an instruction: \<open>#general\<close>
  and \<open>@john\<close> are returned unchanged.
\<close>

theorem C2_passthrough_witness:
  "parseAICommand (''send '' @ [CHR 0x27] @ ''hi'' @ [CHR 0x27] @ '' to #general'')
     = Inr (Some \<lparr>message = ''hi'', channel = ''#general''\<rparr>) \<and>
   parseAICommand (''send '' @ [CHR 0x27] @ ''hi'' @ [CHR 0x27] @ '' to @john'')
     = Inr (Some \<lparr>message = ''hi'', channel = ''@john''\<rparr>)"
proof -
  let ?a = "''send '' @ [CHR 0x27] @ ''hi'' @ [CHR 0x27] @ '' to #general''"
  let ?b = "''send '' @ [CHR 0x27] @ ''hi'' @ [CHR 0x27] @ '' to @john''"
  have a: "map_option (\<lambda>m. (captures m 1, captures m 2)) (match (command_of ?a) True pattern1)
             = Some (Some ''hi'', Some ''#general'')"
    by code_simp
  have b: "map_option (\<lambda>m. (captures m 1, captures m 2)) (match (command_of ?b) True pattern1)
             = Some (Some ''hi'', Some ''@john'')"
    by code_simp
  have s: "splitChannel (trim ''#general'') = Inr ''#general''"
    "splitChannel (trim ''@john'') = Inr ''@john''"
    "startsWith ''#general'' ''#'' \<or> startsWith ''#general'' ''@''"
    "startsWith ''@john'' ''#'' \<or> startsWith ''@john'' ''@''"
    "trim ''hi'' = ''hi''"
    by code_simp+
  from a obtain ma where ma: "match (command_of ?a) True pattern1 = Some ma"
    "captures ma 1 = Some ''hi''" "captures ma 2 = Some ''#general''"
    by auto
  from b obtain mb where mb: "match (command_of ?b) True pattern1 = Some mb"
    "captures mb 1 = Some ''hi''" "captures mb 2 = Some ''@john''"
    by auto
  from C2_sigil_passthrough[OF ma(1) ma(3) s(1) s(3)]
    C2_sigil_passthrough[OF mb(1) mb(3) s(2) s(4)] ma(2) mb(2) s(5)
  show ?thesis by simp
qed

text \<open>
  Claim C3 says that a quoted message that is empty after trimming is a parse failure and
  never reaches the send capability. That holds for \<open>send '' to #general\<close>, where the
  pattern does not match. For \<open>send ' ' to #general\<close> the parser returns a command with
  the empty message, and the request handler, which only tests for \<open>null\<close>, passes it to
  \<open>sendMessage\<close>.
\<close>

theorem C3_blank_message_sent:
  "parseAICommand (''send '' @ [CHR 0x27, CHR 0x27] @ '' to #general'') = Inr None \<and>
   parseAICommand (''send '' @ [CHR 0x27] @ '' '' @ [CHR 0x27] @ '' to #general'')
     = Inr (Some \<lparr>message = [], channel = ''#general''\<rparr>) \<and>
   postFallback (''send '' @ [CHR 0x27] @ '' '' @ [CHR 0x27] @ '' to #general'')
     = SendMessage ''#general'' []"
  by code_simp

text \<open>
  Claim C4 says that pattern 1 does not match when the closing quote differs from the
  opening one. The instruction \<open>send 'hi" to #general\<close> opens with \<open>'\<close>, closes with
  \<open>"\<close>, and is matched.
\<close>

theorem C4_mixed_quotes_counterexample:
  "match (command_of (''send '' @ [CHR 0x27] @ ''hi'' @ [CHR 0x22] @ '' to #general''))
     True pattern1 \<noteq> None \<and>
   parseAICommand (''send '' @ [CHR 0x27] @ ''hi'' @ [CHR 0x22] @ '' to #general'')
     = Inr (Some \<lparr>message = ''hi'', channel = ''#general''\<rparr>)"
proof -
  have "\<not> Option.is_none (match (command_of (''send '' @ [CHR 0x27] @ ''hi'' @ [CHR 0x22] @ '' to #general''))
     True pattern1)"
    by code_simp
  moreover have "parseAICommand (''send '' @ [CHR 0x27] @ ''hi'' @ [CHR 0x22] @ '' to #general'')
     = Inr (Some \<lparr>message = ''hi'', channel = ''#general''\<rparr>)"
    by code_simp
  ultimately show ?thesis by (simp add: Option.is_none_def)
qed

text \<open>
  Claim C4, amended. In pattern 1 the message may be opened by any of \<open>'\<close>, \<open>"\<close> and
  the backtick and closed by any of the three, the same character or not: whatever the two
  delimiters, a non-empty text without quote characters between them is the message, in
  lower case and trimmed.
\<close>

theorem C4_quotes_matched_independently:
  assumes "isQuote opening" and "isQuote closing"
    and "body \<noteq> []" and "\<forall>c\<in>set body. \<not> isQuote c"
  shows "parseAICommand (''send '' @ [opening] @ body @ [closing] @ '' to #general'')
         = Inr (Some \<lparr>message = trim (toLowerCase body), channel = ''#general''\<rparr>)"
proof -
  let ?lb = "toLowerCase body"
  let ?cmd = "''send '' @ opening # ?lb @ closing # '' to #general''"
  have lc: "toLowerCase ''send '' = ''send ''" "toLowerCase '' to #general'' = '' to #general''"
    by code_simp+
  have "toLowerCase (''send '' @ [opening] @ body @ [closing] @ '' to #general'') = ?cmd"
    using lc assms(1,2)
    by (simp add: toLowerCase_append toLowerCase_quote) (simp add: toLowerCase_def toLowerCase_quote)
  moreover have "trim ?cmd = ?cmd"
    by (rule trim_id) (simp_all add: isWhiteSpace_def)
  ultimately have cmd: "command_of (''send '' @ [opening] @ body @ [closing] @ '' to #general'') = ?cmd"
    by (simp add: command_of_def)
  have lb: "?lb \<noteq> []" "\<forall>c\<in>set ?lb. \<not> isQuote c"
    using assms(3,4) by (auto simp: toLowerCase_def isQuote_toLowerCase_char)
  let ?m = "MatchState (length ?lb + 19) [] [1 \<mapsto> ?lb, 2 \<mapsto> ''#general'']"
  have "match ?cmd True pattern1 = Some ?m"
    using pattern1_send[OF assms(1,2) lb] by (simp add: match_def)
  moreover have "fromMatch1 ?m
      = Inr (Some \<lparr>message = trim ?lb, channel = ''#general''\<rparr>)"
  proof -
    have "trim ''#general'' = ''#general''"
      "splitChannel ''#general'' = Inr ''#general''"
      "resolveChannel ''#general'' = ''#general''"
      by code_simp+
    then show ?thesis by (simp add: fromMatch1_def capture_def)
  qed
  ultimately show ?thesis
    unfolding parseAICommand_def cmd Let_def by simp
qed

text \<open>
  An instance of claim C4 as amended: opened by a backtick, closed by \<open>'\<close>.
\<close>

theorem C4_backtick_quote_witness:
  "isQuote (CHR 0x60) \<and> isQuote (CHR 0x27) \<and>
   parseAICommand (''send '' @ [CHR 0x60] @ ''hi'' @ [CHR 0x27] @ '' to #general'')
     = Inr (Some \<lparr>message = ''hi'', channel = ''#general''\<rparr>)"
proof -
  have q: "isQuote (CHR 0x60)" "isQuote (CHR 0x27)"
    by (simp_all add: isQuote_def)
  have b: "''hi'' \<noteq> []" "\<forall>c\<in>set ''hi''. \<not> isQuote c"
    by (simp_all add: isQuote_def)
  have t: "trim (toLowerCase ''hi'') = ''hi''"
    by code_simp
  from C4_quotes_matched_independently[OF q b] q t show ?thesis
    by simp
qed

text \<open>
  Claim C5 says that every run of whitespace inside the phrase becomes a hyphen, so that
  \<open>my cool club\<close> is cleaned to \<open>my-cool-club\<close>. The regular expression has no flag
  \<open>g\<close>: only the first run is replaced.
\<close>

theorem C5_first_run_only:
  "cleanChannelName ''my cool club'' = ''my-cool club'' \<and>
   parseAICommand (''send '' @ [CHR 0x27] @ ''hi'' @ [CHR 0x27] @ '' to my cool club'')
     = Inr (Some \<lparr>message = ''hi'', channel = ''#my-cool club''\<rparr>)"
  by code_simp

text \<open>
  Claim C6 says that a cleaned phrase is substituted only when it is one of the nineteen
  keys of the table. The phrase \<open>__proto__\<close> is not a key, but the property read finds the
  inherited accessor, the result is truthy, and the channel becomes the text of the
  prototype object. The three examples of the claim come out as it says.
\<close>

theorem C6_inherited_property_found:
  "map_of channelMappings ''__proto__'' = None \<and>
   cleanChannelName ''__proto__'' = ''__proto__'' \<and>
   parseAICommand (''send '' @ [CHR 0x27] @ ''hi'' @ [CHR 0x27] @ '' to __proto__'')
     = Inr (Some \<lparr>message = ''hi'', channel = ''#[object Object]''\<rparr>) \<and>
   parseAICommand (''send '' @ [CHR 0x27] @ ''hi'' @ [CHR 0x27] @ '' to the development channel'')
     = Inr (Some \<lparr>message = ''hi'', channel = ''#dev''\<rparr>) \<and>
   parseAICommand (''send '' @ [CHR 0x27] @ ''hi'' @ [CHR 0x27] @ '' to Developers'')
     = Inr (Some \<lparr>message = ''hi'', channel = ''#dev''\<rparr>) \<and>
   parseAICommand (''send '' @ [CHR 0x27] @ ''hi'' @ [CHR 0x27] @ '' to engineering'')
     = Inr (Some \<lparr>message = ''hi'', channel = ''#engineering''\<rparr>)"
  by code_simp

text \<open>
  Claim C7 says that a phrase without a match in the table becomes \<open>#\<close> followed by the
  cleaned phrase. That holds for \<open>bowling-club\<close>. The phrases \<open>__proto__\<close> and
  \<open>constructor\<close> are not in the table either, but the property read finds them in
  \<open>Object.prototype\<close> and the reference is made of what it finds. Nothing is thrown.
\<close>

theorem C7_inherited_property_reference:
  "\<not> hasSigil ''__proto__'' \<and>
   map_of channelMappings (cleanChannelName ''__proto__'') = None \<and>
   ''#'' @ cleanChannelName ''__proto__'' = ''#__proto__'' \<and>
   resolveChannel ''__proto__'' = ''#[object Object]'' \<and>
   map_of channelMappings (cleanChannelName ''constructor'') = None \<and>
   resolveChannel ''constructor'' = ''#function Object() { [native code] }'' \<and>
   parseAICommand (''send '' @ [CHR 0x27] @ ''hi'' @ [CHR 0x27] @ '' to constructor'')
     = Inr (Some \<lparr>message = ''hi'', channel = ''#function Object() { [native code] }''\<rparr>) \<and>
   resolveChannel ''bowling-club'' = ''#bowling-club''"
  by code_simp

text \<open>
  Claim C8. Pattern 1 is tried before pattern 2: an instruction that both patterns match
  gets the result of pattern 1.
\<close>

theorem C8_pattern1_first:
  assumes "match (command_of input) True pattern1 = Some match1"
    and "match (command_of input) True pattern2 = Some match2"
  shows "parseAICommand input = fromMatch1 match1"
  using assms by (simp add: parseAICommand_def)

text \<open>
  An instruction that both patterns match, with different results: the parser returns the
  one of pattern 1.
\<close>

theorem C8_both_patterns_witness:
  "map_option fromMatch1
     (match (command_of (''tell bob to send '' @ [CHR 0x27] @ ''hi'' @ [CHR 0x27] @ '' to #general''))
        True pattern1)
     = Some (Inr (Some \<lparr>message = ''hi'', channel = ''#general''\<rparr>)) \<and>
   map_option fromMatch2
     (match (command_of (''tell bob to send '' @ [CHR 0x27] @ ''hi'' @ [CHR 0x27] @ '' to #general''))
        True pattern2)
     = Some (Inr (Some \<lparr>message = ''to #general'',
                          channel = ''#bob to send '' @ [CHR 0x27] @ ''hi'' @ [CHR 0x27]\<rparr>)) \<and>
   parseAICommand (''tell bob to send '' @ [CHR 0x27] @ ''hi'' @ [CHR 0x27] @ '' to #general'')
     = Inr (Some \<lparr>message = ''hi'', channel = ''#general''\<rparr>)"
proof -
  let ?input = "''tell bob to send '' @ [CHR 0x27] @ ''hi'' @ [CHR 0x27] @ '' to #general''"
  have 1: "map_option fromMatch1 (match (command_of ?input) True pattern1)
             = Some (Inr (Some \<lparr>message = ''hi'', channel = ''#general''\<rparr>))"
    by code_simp
  have 2: "map_option fromMatch2 (match (command_of ?input) True pattern2)
             = Some (Inr (Some \<lparr>message = ''to #general'',
                  channel = ''#bob to send '' @ [CHR 0x27] @ ''hi'' @ [CHR 0x27]\<rparr>))"
    by code_simp
  from 1 obtain m1 where m1: "match (command_of ?input) True pattern1 = Some m1"
    and r1: "fromMatch1 m1 = Inr (Some \<lparr>message = ''hi'', channel = ''#general''\<rparr>)"
    by auto
  from 2 obtain m2 where m2: "match (command_of ?input) True pattern2 = Some m2"
    by auto
  from C8_pattern1_first[OF m1 m2] r1 1 2 show ?thesis by simp
qed

text \<open>
  Claim C9. The parser throws for no input string. When neither pattern 1 nor pattern 2
  matches the command it returns \<open>null\<close>, and the request handler, which calls the
  parser for every command that is not empty, then answers with the fixed list of three
  example commands.
\<close>

theorem C9_no_throw_and_examples:
  "(\<forall>e. parseAICommand input \<noteq> Inl e) \<and>
   (match (command_of input) True pattern1 = None \<and>
    match (command_of input) True pattern2 = None \<longrightarrow>
      parseAICommand input = Inr None \<and>
      (input \<noteq> [] \<longrightarrow>
         postFallback input =
           InvalidRequest
             [''send '' @ [CHR 0x27] @ ''Hello team!'' @ [CHR 0x27] @ '' to #general'',
              ''message '' @ [CHR 0x27] @ ''Meeting in 5 minutes'' @ [CHR 0x27] @ '' to @john'',
              ''send '' @ [CHR 0x27] @ ''Good morning'' @ [CHR 0x27] @
                '' to the development channel'']))"
  using parseAICommand_no_throw[of input]
  by (simp add: parseAICommand_def postFallback_def examples_def)

text \<open>The instance \<open>xyzzy plugh\<close> of claim C9.\<close>

theorem C9_xyzzy_plugh_witness:
  "match (command_of ''xyzzy plugh'') True pattern1 = None \<and>
   match (command_of ''xyzzy plugh'') True pattern2 = None \<and>
   parseAICommand ''xyzzy plugh'' = Inr None \<and>
   (\<exists>ex. postFallback ''xyzzy plugh'' = InvalidRequest ex \<and> length ex = 3)"
proof -
  have 1: "Option.is_none (match (command_of ''xyzzy plugh'') True pattern1)"
    by code_simp
  have 2: "Option.is_none (match (command_of ''xyzzy plugh'') True pattern2)"
    by code_simp
  from 1 2 show ?thesis
    using C9_no_throw_and_examples[of "''xyzzy plugh''"]
    by (simp add: Option.is_none_def)
qed

text \<open>
  Claim C10 speaks of every instruction that pattern 2 matches. The instruction
  \<open>tell bob to send 'hi' to #general\<close> is matched by pattern 2 with the target
  \<open>bob to send 'hi'\<close>, which starts with neither \<open>#\<close> nor \<open>@\<close>; pattern 1 matches it
  too and comes first, so the channel is \<open>#general\<close> and not \<open>#\<close> followed by that
  target.
\<close>

theorem C10_both_patterns_counterexample:
  "map_option (\<lambda>m. captures m 1)
     (match (command_of (''tell bob to send '' @ [CHR 0x27] @ ''hi'' @ [CHR 0x27] @ '' to #general''))
        True pattern2)
     = Some (Some (''bob to send '' @ [CHR 0x27] @ ''hi'' @ [CHR 0x27])) \<and>
   \<not> startsWith (trim (''bob to send '' @ [CHR 0x27] @ ''hi'' @ [CHR 0x27])) ''#'' \<and>
   \<not> startsWith (trim (''bob to send '' @ [CHR 0x27] @ ''hi'' @ [CHR 0x27])) ''@'' \<and>
   parseAICommand (''tell bob to send '' @ [CHR 0x27] @ ''hi'' @ [CHR 0x27] @ '' to #general'')
     = Inr (Some \<lparr>message = ''hi'', channel = ''#general''\<rparr>) \<and>
   ''#general'' \<noteq> ''#'' @ trim (''bob to send '' @ [CHR 0x27] @ ''hi'' @ [CHR 0x27])"
  by code_simp

text \<open>
  Claim C10, amended. For an instruction that pattern 2 matches and pattern 1 does not, and
  whose target (the first group, trimmed) starts with neither \<open>#\<close> nor \<open>@\<close>, the
  channel is \<open>#\<close> followed by that target as it was matched: no article is stripped,
  nothing is hyphenated and the channel mappings are not consulted. The command is in lower
  case, so the tests for a leading \<open>C\<close> or \<open>D\<close> never apply.
\<close>

theorem C10_pattern2_prefix_only:
  assumes "match (command_of input) True pattern1 = None"
    and "match (command_of input) True pattern2 = Some match2"
    and "captures match2 1 = Some target"
    and "\<not> startsWith (trim target) ''#''"
    and "\<not> startsWith (trim target) ''@''"
  shows "\<exists>body. captures match2 2 = Some body \<and>
           parseAICommand input =
             Inr (Some \<lparr>message = trim body, channel = ''#'' @ trim target\<rparr>)"
proof -
  from capture_defined[OF assms(2) groups_pattern2(1)] assms(3)
  have t: "capture match2 1 = Inr target" "set target \<subseteq> set (command_of input)"
    by auto
  from capture_defined[OF assms(2) groups_pattern2(2)]
  obtain body where x: "captures match2 2 = Some body" "capture match2 2 = Inr body"
    by blast
  have "\<forall>c\<in>set (trim target). \<not> isUpper c"
    using t(2) set_trim[of target] set_command_of[of _ input] by blast
  from lower_no_letter_sigil[OF this] assms(4,5) have "\<not> hasSigil (trim target)"
    by simp
  with assms(1,2) t(1) x show ?thesis
    by (simp add: parseAICommand_def fromMatch2_def)
qed

text \<open>
  The instance of claim C10 as amended: \<open>tell development that hi\<close> goes to
  \<open>#development\<close>, not to \<open>#dev\<close>.
\<close>

theorem C10_tell_development_witness:
  "match (command_of ''tell development that hi'') True pattern1 = None \<and>
   map_option (\<lambda>m. captures m 1) (match (command_of ''tell development that hi'') True pattern2)
     = Some (Some ''development'') \<and>
   parseAICommand ''tell development that hi''
     = Inr (Some \<lparr>message = ''hi'', channel = ''#development''\<rparr>)"
proof -
  let ?cmd = "command_of ''tell development that hi''"
  have 1: "Option.is_none (match ?cmd True pattern1)"
    by code_simp
  have 2: "map_option (\<lambda>m. captures m 1) (match ?cmd True pattern2) = Some (Some ''development'')"
    by code_simp
  have 3: "map_option (\<lambda>m. captures m 2) (match ?cmd True pattern2) = Some (Some ''hi'')"
    by code_simp
  have 4: "trim ''development'' = ''development''" "trim ''hi'' = ''hi''"
    "\<not> startsWith ''development'' ''#''" "\<not> startsWith ''development'' ''@''"
    by code_simp+
  from 2 3 obtain m where m: "match ?cmd True pattern2 = Some m"
    "captures m 1 = Some ''development''" "captures m 2 = Some ''hi''"
    by auto
  from 1 have n: "match ?cmd True pattern1 = None"
    by (simp add: Option.is_none_def)
  from C10_pattern2_prefix_only[OF n m(1) m(2)] 4 m(3) n 2 show ?thesis
    by simp
qed

end
